theory Spec2Isabelle
  imports Complex_Main "HOL-Library.Log_Nat" "HOL-Library.Word" "HOL-Library.Multiset"
begin

section \<open>The order calculator of chapter-14.cpp\<close>

text \<open>
  The development embeds \<^verbatim>\<open>struct OrderItem\<close>, \<^verbatim>\<open>namespace OrderConstants\<close> and
  \<^verbatim>\<open>class OrderCalculator\<close> of \<^verbatim>\<open>src/SOLID/code-examples/chapter-14.cpp\<close>
  (lines 215 to 326). The calculator computes in C++ \<^verbatim>\<open>double\<close>, so the first part
  of the theory is a model of IEEE 754 binary64 arithmetic: the values, rounding to
  nearest with ties to even, and the operations the calculator uses.
\<close>

subsection \<open>IEEE 754 binary64 values\<close>

text \<open>
  A \<^verbatim>\<open>double\<close> is a finite number, an infinity or a NaN. A finite double is kept as
  the rational number it denotes. The two zeros \<^verbatim>\<open>+0.0\<close> and \<^verbatim>\<open>-0.0\<close> are one
  value \<open>Num 0\<close> here: they compare equal, and only a division by zero or a look at
  the sign bit tells them apart, neither of which the calculator does (its one division
  is by the literal \<^verbatim>\<open>100.0\<close>). All NaNs are one value.
\<close>

datatype double = Num rat | PosInf | NegInf | NaN

text \<open>
  \<open>ilog2 a\<close> is the binary exponent of a positive rational: the integer \<open>e\<close> with
  \<open>2 powi e \<le> a < 2 powi (e + 1)\<close> (lemma \<open>ilog2_bounds\<close>).
\<close>

definition ilog2 :: "rat \<Rightarrow> int" where
  "ilog2 a = (if 1 \<le> a then bitlen \<lfloor>a\<rfloor> - 1 else - bitlen (\<lceil>1 / a\<rceil> - 1))"

text \<open>Rounding a rational to the nearest integer, ties to the even one.\<close>

definition rne :: "rat \<Rightarrow> int" where
  "rne y = (let m = \<lfloor>y\<rfloor>; f = y - of_int m in
     if f < 1 / 2 then m else if 1 / 2 < f then m + 1 else if even m then m else m + 1)"

text \<open>
  The exponent of the unit in the last place for a magnitude \<open>a\<close>: 53 significant bits
  for a normal number, and the fixed spacing \<open>2 powi (-1074)\<close> in the subnormal range.
\<close>

definition qexp :: "rat \<Rightarrow> int" where
  "qexp a = max (ilog2 a - 52) (- 1074)"

definition rnd_mag :: "rat \<Rightarrow> rat" where
  "rnd_mag a = of_int (rne (a / 2 powi qexp a)) * 2 powi qexp a"

text \<open>
  \<open>rnd x\<close> is the double that an exact result \<open>x\<close> is rounded to in the default
  rounding mode (to nearest, ties to even). A magnitude that rounds to \<open>2 powi 1024\<close> or
  more (binary exponent 1024 or more) overflows to an infinity. A decimal literal of the
  source denotes \<open>rnd\<close> of its decimal value. Every operation of the source is taken to
  round once, to binary64: no extended-precision intermediate and no fused multiply-add.
\<close>

definition rnd :: "rat \<Rightarrow> double" where
  "rnd x = (if x = 0 then Num 0 else
     let r = rnd_mag \<bar>x\<bar> in
     if 1024 \<le> ilog2 r then (if 0 < x then PosInf else NegInf)
     else Num (if 0 < x then r else - r))"

text \<open>The finite values of the type that are doubles: those that rounding leaves alone.\<close>

definition is_double :: "double \<Rightarrow> bool" where
  "is_double d = (case d of Num x \<Rightarrow> rnd x = Num x | _ \<Rightarrow> True)"

subsection \<open>Comparisons and arithmetic on doubles\<close>

text \<open>Every comparison with a NaN is false.\<close>

fun flt :: "double \<Rightarrow> double \<Rightarrow> bool" where
  "flt NaN _ = False"
| "flt _ NaN = False"
| "flt (Num a) (Num b) = (a < b)"
| "flt (Num a) PosInf = True"
| "flt (Num a) NegInf = False"
| "flt PosInf _ = False"
| "flt NegInf NegInf = False"
| "flt NegInf _ = True"

fun fle :: "double \<Rightarrow> double \<Rightarrow> bool" where
  "fle NaN _ = False"
| "fle _ NaN = False"
| "fle (Num a) (Num b) = (a \<le> b)"
| "fle (Num a) PosInf = True"
| "fle (Num a) NegInf = False"
| "fle PosInf PosInf = True"
| "fle PosInf _ = False"
| "fle NegInf _ = True"

definition fge :: "double \<Rightarrow> double \<Rightarrow> bool" where
  "fge x y = fle y x"

fun fneg :: "double \<Rightarrow> double" where
  "fneg (Num a) = Num (- a)"
| "fneg PosInf = NegInf"
| "fneg NegInf = PosInf"
| "fneg NaN = NaN"

fun fadd :: "double \<Rightarrow> double \<Rightarrow> double" where
  "fadd NaN _ = NaN"
| "fadd _ NaN = NaN"
| "fadd (Num a) (Num b) = rnd (a + b)"
| "fadd PosInf NegInf = NaN"
| "fadd NegInf PosInf = NaN"
| "fadd PosInf _ = PosInf"
| "fadd NegInf _ = NegInf"
| "fadd (Num a) PosInf = PosInf"
| "fadd (Num a) NegInf = NegInf"

definition fsub :: "double \<Rightarrow> double \<Rightarrow> double" where
  "fsub x y = fadd x (fneg y)"

text \<open>The sign of a double: \<open>1\<close>, \<open>0\<close> or \<open>-1\<close> (used for products with an infinity).\<close>

fun fsgn :: "double \<Rightarrow> int" where
  "fsgn (Num a) = (if 0 < a then 1 else if a < 0 then - 1 else 0)"
| "fsgn PosInf = 1"
| "fsgn NegInf = - 1"
| "fsgn NaN = 0"

definition inf_of_sign :: "int \<Rightarrow> double" where
  "inf_of_sign s = (if 0 < s then PosInf else if s < 0 then NegInf else NaN)"

fun fmul :: "double \<Rightarrow> double \<Rightarrow> double" where
  "fmul NaN _ = NaN"
| "fmul _ NaN = NaN"
| "fmul (Num a) (Num b) = rnd (a * b)"
| "fmul x y = inf_of_sign (fsgn x * fsgn y)"

text \<open>
  Division. A finite non-zero number divided by a zero is an infinity whose sign also
  depends on the sign of the zero, which the model does not keep: that case gives the
  sign for \<^verbatim>\<open>+0.0\<close>. The calculator never reaches it.
\<close>

fun fdiv :: "double \<Rightarrow> double \<Rightarrow> double" where
  "fdiv NaN _ = NaN"
| "fdiv _ NaN = NaN"
| "fdiv (Num a) (Num b) = (if b = 0 then inf_of_sign (fsgn (Num a)) else rnd (a / b))"
| "fdiv (Num a) _ = Num 0"
| "fdiv x (Num b) = inf_of_sign (fsgn x * (if b < 0 then - 1 else 1))"
| "fdiv x y = NaN"

text \<open>
  \<^verbatim>\<open>std::round\<close>: the nearest integer, halfway cases away from zero. The result is
  always a double: a double of magnitude \<open>2 powi 52\<close> or more is an integer already.
\<close>

fun std_round :: "double \<Rightarrow> double" where
  "std_round (Num x) = Num (of_int (if 0 \<le> x then \<lfloor>x + 1 / 2\<rfloor> else - \<lfloor>- x + 1 / 2\<rfloor>))"
| "std_round d = d"

text \<open>A C++ \<^verbatim>\<open>int\<close> is a 32-bit word read as signed (\<open>sint\<close>); its conversion to
  \<^verbatim>\<open>double\<close> is exact.\<close>

definition double_of_int :: "32 word \<Rightarrow> double" where
  "double_of_int q = Num (of_int (sint q))"

subsection \<open>Strings\<close>

text \<open>
  \<^verbatim>\<open>::toupper\<close> in the C locale (the program never sets another): the letters
  \<^verbatim>\<open>a\<close> to \<^verbatim>\<open>z\<close> go to \<^verbatim>\<open>A\<close> to \<^verbatim>\<open>Z\<close>, every other byte stays.
\<close>

definition toupper :: "char \<Rightarrow> char" where
  "toupper c = (let n = (of_char c :: nat) in if 97 \<le> n \<and> n \<le> 122 then char_of (n - 32) else c)"

definition toUpperCase :: "string \<Rightarrow> string" where
  "toUpperCase str = map toupper str"

subsection \<open>OrderItem and OrderConstants\<close>

record OrderItem =
  productName :: string
  price :: double
  quantity :: "32 word"
  category :: string

definition getTotalPrice :: "OrderItem \<Rightarrow> double" where
  "getTotalPrice item = fmul (price item) (double_of_int (quantity item))"

definition ELECTRONICS_TAX_RATE :: double where
  "ELECTRONICS_TAX_RATE = rnd (1 / 10)"

definition BOOK_BULK_DISCOUNT_RATE :: double where
  "BOOK_BULK_DISCOUNT_RATE = rnd (5 / 100)"

definition BOOK_BULK_QUANTITY_THRESHOLD :: "32 word" where
  "BOOK_BULK_QUANTITY_THRESHOLD = 5"

definition FREE_SHIPPING_THRESHOLD :: double where
  "FREE_SHIPPING_THRESHOLD = Num 100"

definition STANDARD_SHIPPING_COST :: double where
  "STANDARD_SHIPPING_COST = Num 10"

definition ELECTRONICS_CATEGORY :: string where
  "ELECTRONICS_CATEGORY = ''ELECTRONICS''"

definition BOOKS_CATEGORY :: string where
  "BOOKS_CATEGORY = ''BOOKS''"

subsection \<open>OrderCalculator\<close>

text \<open>\<^verbatim>\<open>std::invalid_argument\<close> with its \<^verbatim>\<open>what()\<close> message.\<close>

datatype error = InvalidArgument string

text \<open>The \<^verbatim>\<open>for\<close> loop of \<^verbatim>\<open>validateOrderItems\<close>: the first throw ends it.\<close>

fun validateLoop :: "OrderItem list \<Rightarrow> error + unit" where
  "validateLoop [] = Inr ()"
| "validateLoop (item # rest) =
     (if sint (quantity item) \<le> 0 then
        Inl (InvalidArgument (''Invalid quantity for item '' @ productName item))
      else if flt (price item) (Num 0) then
        Inl (InvalidArgument (''Invalid price for item '' @ productName item))
      else if productName item = [] then
        Inl (InvalidArgument ''Product name cannot be empty'')
      else validateLoop rest)"

definition validateOrderItems :: "OrderItem list \<Rightarrow> error + unit" where
  "validateOrderItems orderItems =
     (if orderItems = [] then Inl (InvalidArgument ''Order must contain at least one item'')
      else validateLoop orderItems)"

definition applyElectronicsTax :: "double \<Rightarrow> double" where
  "applyElectronicsTax amount = fmul amount (fadd (Num 1) ELECTRONICS_TAX_RATE)"

definition applyBookDiscount :: "double \<Rightarrow> 32 word \<Rightarrow> double" where
  "applyBookDiscount amount qty =
     (if sint BOOK_BULK_QUANTITY_THRESHOLD \<le> sint qty
      then fmul amount (fsub (Num 1) BOOK_BULK_DISCOUNT_RATE)
      else amount)"

definition calculateItemTotal :: "OrderItem \<Rightarrow> double" where
  "calculateItemTotal item =
     (let baseTotal = getTotalPrice item;
          upperCategory = toUpperCase (category item)
      in if upperCategory = ELECTRONICS_CATEGORY then applyElectronicsTax baseTotal
         else if upperCategory = BOOKS_CATEGORY then applyBookDiscount baseTotal (quantity item)
         else baseTotal)"

text \<open>The loop of \<^verbatim>\<open>calculateSubtotal\<close>, with the running \<^verbatim>\<open>subtotal\<close> as accumulator.\<close>

fun subtotalLoop :: "double \<Rightarrow> OrderItem list \<Rightarrow> double" where
  "subtotalLoop subtotal [] = subtotal"
| "subtotalLoop subtotal (item # rest) =
     subtotalLoop (fadd subtotal (calculateItemTotal item)) rest"

definition calculateSubtotal :: "OrderItem list \<Rightarrow> double" where
  "calculateSubtotal orderItems = subtotalLoop (Num 0) orderItems"

definition calculateShippingCost :: "double \<Rightarrow> double" where
  "calculateShippingCost subtotal =
     (if fge subtotal FREE_SHIPPING_THRESHOLD then Num 0 else STANDARD_SHIPPING_COST)"

definition calculateOrderTotal :: "OrderItem list \<Rightarrow> error + double" where
  "calculateOrderTotal orderItems =
     (case validateOrderItems orderItems of
        Inl e \<Rightarrow> Inl e
      | Inr _ \<Rightarrow>
          let subtotal = calculateSubtotal orderItems;
              shippingCost = calculateShippingCost subtotal;
              totalAmount = fadd subtotal shippingCost
          in Inr (fdiv (std_round (fmul totalAmount (Num 100))) (Num 100)))"

subsection \<open>Notions of the specification\<close>

text \<open>
  The preconditions the specification puts on an order: at least one item, and for every
  item a positive quantity, a price that is at least zero and a product name that is
  not empty.
\<close>

definition valid_item :: "OrderItem \<Rightarrow> bool" where
  "valid_item item =
     (0 < sint (quantity item) \<and> fge (price item) (Num 0) \<and> productName item \<noteq> [])"

definition valid_order :: "OrderItem list \<Rightarrow> bool" where
  "valid_order orderItems = (orderItems \<noteq> [] \<and> list_all valid_item orderItems)"

text \<open>
  Case-insensitive equality of category names, stated with the lower-case folding of the
  letters \<^verbatim>\<open>A\<close> to \<^verbatim>\<open>Z\<close> (the calculator itself folds to upper case).
\<close>

definition tolower :: "char \<Rightarrow> char" where
  "tolower c = (let n = (of_char c :: nat) in if 65 \<le> n \<and> n \<le> 90 then char_of (n + 32) else c)"

definition equal_ignoring_case :: "string \<Rightarrow> string \<Rightarrow> bool" where
  "equal_ignoring_case a b = (map tolower a = map tolower b)"

text \<open>
  What \<^verbatim>\<open>validateOrderItems\<close> rejects in an item, and the exception it throws for
  it: the checks of the loop body, in their order.
\<close>

definition item_violation :: "OrderItem \<Rightarrow> bool" where
  "item_violation item =
     (sint (quantity item) \<le> 0 \<or> flt (price item) (Num 0) \<or> productName item = [])"

definition item_error :: "OrderItem \<Rightarrow> error" where
  "item_error item =
     (if sint (quantity item) \<le> 0 then
        InvalidArgument (''Invalid quantity for item '' @ productName item)
      else if flt (price item) (Num 0) then
        InvalidArgument (''Invalid price for item '' @ productName item)
      else InvalidArgument ''Product name cannot be empty'')"

text \<open>
  \<open>n\<close> is \<open>x\<close> rounded to the nearest integer with halfway cases away from zero: at
  most one half away from \<open>x\<close>, and of larger magnitude than \<open>x\<close> when exactly one half
  away.
\<close>

definition is_round_half_away :: "rat \<Rightarrow> int \<Rightarrow> bool" where
  "is_round_half_away x n =
     (\<bar>of_int n - x\<bar> \<le> 1 / 2 \<and> (\<bar>of_int n - x\<bar> = 1 / 2 \<longrightarrow> \<bar>x\<bar> < \<bar>of_int n\<bar>))"

text \<open>
  The additions of a running sum are exact when none of them rounds: every operand is
  finite and every binary64 sum is the sum of the rationals. \<open>exact_subtotal\<close> says so
  of the loop of \<^verbatim>\<open>calculateSubtotal\<close> on an order.
\<close>

fun exact_additions :: "double \<Rightarrow> double list \<Rightarrow> bool" where
  "exact_additions s [] = True"
| "exact_additions (Num a) (Num b # xs) =
     (fadd (Num a) (Num b) = Num (a + b) \<and> exact_additions (Num (a + b)) xs)"
| "exact_additions s (x # xs) = False"

definition exact_subtotal :: "OrderItem list \<Rightarrow> bool" where
  "exact_subtotal orderItems = exact_additions (Num 0) (map calculateItemTotal orderItems)"

fun num_value :: "double \<Rightarrow> rat" where
  "num_value (Num a) = a"
| "num_value d = 0"

section \<open>Binary exponent and rounding\<close>

lemma powi_pos: "0 < (2::rat) powi k"
  by simp

lemma powi_nat: "0 \<le> k \<Longrightarrow> (2::rat) powi k = 2 ^ nat k"
  by (simp add: power_int_def)

lemma powi_add: "(2::rat) powi (m + n) = 2 powi m * 2 powi n"
  by (simp add: power_int_add)

lemma powi_less_iff: "(2::rat) powi m < 2 powi n \<longleftrightarrow> m < n"
  by (metis power_int_strict_increasing not_less_iff_gr_or_eq one_less_numeral_iff semiring_norm(76))

lemma powi_le_iff: "(2::rat) powi m \<le> 2 powi n \<longleftrightarrow> m \<le> n"
  by (metis powi_less_iff linorder_not_le order_le_less)

lemma ilog2_bounds_ge1:
  assumes "1 \<le> a"
  shows "2 powi ilog2 a \<le> a \<and> a < 2 powi (ilog2 a + 1)"
proof -
  let ?n = "\<lfloor>a\<rfloor>"
  have n: "0 < ?n" using assms by linarith
  from bitlen_bounds[OF n]
  have b: "2 ^ nat (bitlen ?n - 1) \<le> ?n" "?n < 2 ^ nat (bitlen ?n)" by auto
  have bl: "1 \<le> bitlen ?n" using n by (simp add: bitlen_alt_def)
  have e: "ilog2 a = bitlen ?n - 1" using assms by (simp add: ilog2_def)
  have "(2::rat) powi (bitlen ?n - 1) = of_int (2 ^ nat (bitlen ?n - 1))"
    using bl by (simp add: powi_nat)
  also have "\<dots> \<le> of_int ?n" using b(1) by (simp only: of_int_le_iff)
  also have "\<dots> \<le> a" by simp
  finally have lo: "2 powi ilog2 a \<le> a" by (simp add: e)
  have "?n + 1 \<le> 2 ^ nat (bitlen ?n)" using b(2) by simp
  then have "(of_int (?n + 1) :: rat) \<le> of_int (2 ^ nat (bitlen ?n))"
    by (simp only: of_int_le_iff)
  moreover have "a < of_int (?n + 1)" by linarith
  ultimately have "a < of_int (2 ^ nat (bitlen ?n))" by linarith
  moreover have "(2::rat) powi (ilog2 a + 1) = of_int (2 ^ nat (bitlen ?n))"
    using bl by (simp add: e powi_nat)
  ultimately have "a < 2 powi (ilog2 a + 1)" by simp
  with lo show ?thesis by simp
qed

lemma ilog2_bounds_lt1:
  assumes "0 < a" "a < 1"
  shows "2 powi ilog2 a \<le> a \<and> a < 2 powi (ilog2 a + 1)"
proof -
  define b where "b = 1 / a"
  define m where "m = \<lceil>b\<rceil> - 1"
  define L where "L = bitlen m"
  have b1: "1 < b" using assms by (simp add: b_def)
  have m: "0 < m" using b1 unfolding m_def by linarith
  have mb: "of_int m < b" "b \<le> of_int m + 1" unfolding m_def by linarith+
  from bitlen_bounds[OF m]
  have bb: "2 ^ nat (L - 1) \<le> m" "m < 2 ^ nat L" by (auto simp: L_def)
  have bl: "1 \<le> L" using m by (simp add: bitlen_alt_def L_def)
  have e: "ilog2 a = - L" using assms by (simp add: ilog2_def L_def m_def b_def)
  have "(2::rat) ^ nat (L - 1) = of_int (2 ^ nat (L - 1))" by simp
  also have "\<dots> \<le> of_int m" using bb(1) by (simp only: of_int_le_iff)
  finally have lo: "(2::rat) ^ nat (L - 1) < b" using mb(1) by linarith
  have "m + 1 \<le> 2 ^ nat L" using bb(2) by simp
  then have "(of_int (m + 1) :: rat) \<le> of_int (2 ^ nat L)"
    by (simp only: of_int_le_iff)
  also have "(of_int (2 ^ nat L) :: rat) = 2 ^ nat L" by simp
  finally have hi: "b \<le> (2::rat) ^ nat L" using mb(2) by simp
  have p1: "(2::rat) powi (- L) = 1 / 2 ^ nat L"
    using bl by (simp add: power_int_def field_simps)
  have "nat (L - 1) = nat L - 1" using bl by simp
  have p2: "(2::rat) powi (- L + 1) = 1 / 2 ^ nat (L - 1)"
  proof -
    have "(2::rat) powi (- L + 1) = 2 powi (- (L - 1))" by simp
    also have "\<dots> = inverse (2 powi (L - 1))" by (rule power_int_minus)
    also have "\<dots> = 1 / 2 ^ nat (L - 1)" using bl by (simp add: powi_nat field_simps)
    finally show ?thesis .
  qed
  have a_eq: "a = 1 / b" using assms by (simp add: b_def)
  have bpos: "0 < b" using b1 by simp
  have "1 / 2 ^ nat L \<le> a"
    unfolding a_eq using hi bpos by (simp add: field_simps)
  moreover have "a < 1 / 2 ^ nat (L - 1)"
    unfolding a_eq using lo bpos by (simp add: field_simps)
  ultimately have "2 powi (- L) \<le> a \<and> a < 2 powi (- L + 1)"
    by (simp only: p1 p2)
  then show ?thesis by (simp only: e)
qed

lemma ilog2_bounds:
  "0 < a \<Longrightarrow> 2 powi ilog2 a \<le> a \<and> a < 2 powi (ilog2 a + 1)"
  using ilog2_bounds_ge1 ilog2_bounds_lt1 by (cases "1 \<le> a") auto

lemma ilog2_unique:
  assumes "2 powi e \<le> a" "a < 2 powi (e + 1)"
  shows "ilog2 a = e"
proof -
  have a: "0 < a" using assms(1) powi_pos[of e] by linarith
  note b = ilog2_bounds[OF a]
  have "2 powi e < (2::rat) powi (ilog2 a + 1)" using assms(1) b by linarith
  then have "e < ilog2 a + 1" by (simp only: powi_less_iff)
  moreover have "2 powi ilog2 a < (2::rat) powi (e + 1)" using assms(2) b by linarith
  then have "ilog2 a < e + 1" by (simp only: powi_less_iff)
  ultimately show ?thesis by simp
qed

lemma ilog2_mono:
  assumes "0 < a" "a \<le> b"
  shows "ilog2 a \<le> ilog2 b"
proof -
  have b: "0 < b" using assms by simp
  have "2 powi ilog2 a \<le> a" using ilog2_bounds[OF assms(1)] by simp
  also have "a \<le> b" by fact
  also have "b < 2 powi (ilog2 b + 1)" using ilog2_bounds[OF b] by simp
  finally have "ilog2 a < ilog2 b + 1" by (simp only: powi_less_iff)
  then show ?thesis by simp
qed

subsection \<open>Rounding is monotone above a double\<close>

lemma rne_of_int: "rne (of_int n) = n"
  by (simp add: rne_def)

lemma rne_floor: "\<lfloor>y\<rfloor> \<le> rne y \<and> rne y \<le> \<lfloor>y\<rfloor> + 1"
  by (simp add: rne_def Let_def)

lemma rne_mono:
  assumes "x \<le> y"
  shows "rne x \<le> rne y"
proof (cases "\<lfloor>x\<rfloor> = \<lfloor>y\<rfloor>")
  case True
  then have "x - of_int \<lfloor>x\<rfloor> \<le> y - of_int \<lfloor>y\<rfloor>" using assms by simp
  then show ?thesis using True by (simp add: rne_def Let_def)
next
  case False
  have "\<lfloor>x\<rfloor> \<le> \<lfloor>y\<rfloor>" using assms by (rule floor_mono)
  then have "\<lfloor>x\<rfloor> + 1 \<le> \<lfloor>y\<rfloor>" using False by simp
  then show ?thesis using rne_floor[of x] rne_floor[of y] by linarith
qed

lemma rne_nonneg: "0 \<le> y \<Longrightarrow> 0 \<le> rne y"
  using rne_mono[of 0 y] rne_of_int[of 0] by simp

lemma rnd_mag_nonneg: "0 \<le> a \<Longrightarrow> 0 \<le> rnd_mag a"
  unfolding rnd_mag_def
  by (intro mult_nonneg_nonneg) (simp_all add: rne_nonneg)

lemma rnd_mag_mono_same_qexp:
  assumes "c \<le> x" "qexp c = qexp x"
  shows "rnd_mag c \<le> rnd_mag x"
proof -
  have "c / 2 powi qexp x \<le> x / 2 powi qexp x"
    using assms(1) by (simp add: divide_right_mono)
  then have "rne (c / 2 powi qexp x) \<le> rne (x / 2 powi qexp x)" by (rule rne_mono)
  then have "(of_int (rne (c / 2 powi qexp x)) :: rat) \<le> of_int (rne (x / 2 powi qexp x))"
    by (simp only: of_int_le_iff)
  then show ?thesis
    unfolding rnd_mag_def assms(2) by (simp add: mult_right_mono)
qed

lemma rnd_mag_ge_binade:
  assumes "0 < x" "- 1074 \<le> ilog2 x"
  shows "2 powi ilog2 x \<le> rnd_mag x"
proof -
  define e where "e = ilog2 x"
  define q where "q = qexp x"
  have qe: "q \<le> e" using assms(2) by (simp add: q_def e_def qexp_def)
  define N :: int where "N = 2 ^ nat (e - q)"
  have split: "(2::rat) powi e = of_int N * 2 powi q"
  proof -
    have "(2::rat) powi e = 2 powi ((e - q) + q)" by simp
    also have "\<dots> = 2 powi (e - q) * 2 powi q" by (rule powi_add)
    also have "(2::rat) powi (e - q) = of_int N" using qe by (simp add: N_def powi_nat)
    finally show ?thesis .
  qed
  have "2 powi e \<le> x" using ilog2_bounds[OF assms(1)] by (simp add: e_def)
  then have "of_int N * 2 powi q \<le> x" by (simp only: split)
  then have "of_int N \<le> x / 2 powi q" by (simp add: pos_le_divide_eq)
  then have "rne (of_int N) \<le> rne (x / 2 powi q)" by (rule rne_mono)
  then have "N \<le> rne (x / 2 powi q)" by (simp only: rne_of_int)
  then have "(of_int N :: rat) \<le> of_int (rne (x / 2 powi q))" by (simp only: of_int_le_iff)
  then have "of_int N * (2::rat) powi q \<le> of_int (rne (x / 2 powi q)) * 2 powi q"
    by (simp add: mult_right_mono)
  then show ?thesis unfolding rnd_mag_def split[symmetric] q_def[symmetric] e_def[symmetric] .
qed

lemma rnd_mag_lower:
  assumes "0 < c" "c \<le> x" "rnd_mag c = c" "- 1074 \<le> ilog2 c"
  shows "c \<le> rnd_mag x"
proof (cases "ilog2 c = ilog2 x")
  case True
  then have "qexp c = qexp x" by (simp add: qexp_def)
  from rnd_mag_mono_same_qexp[OF assms(2) this] show ?thesis by (simp only: assms(3))
next
  case False
  have x: "0 < x" using assms by simp
  have "ilog2 c \<le> ilog2 x" using assms(1,2) by (rule ilog2_mono)
  then have lt: "ilog2 c + 1 \<le> ilog2 x" using False by simp
  have "c < 2 powi (ilog2 c + 1)" using ilog2_bounds[OF assms(1)] by simp
  also have "\<dots> \<le> 2 powi ilog2 x" using lt by (simp only: powi_le_iff)
  also have "\<dots> \<le> rnd_mag x" using x assms(4) lt by (intro rnd_mag_ge_binade) simp_all
  finally show ?thesis by simp
qed

lemma rnd_pos_cases:
  "0 < x \<Longrightarrow> rnd x = PosInf \<or> rnd x = Num (rnd_mag x)"
  by (simp add: rnd_def Let_def)

lemma rnd_nonneg: "0 \<le> x \<Longrightarrow> fle (Num 0) (rnd x)"
  using rnd_mag_nonneg[of x] by (auto simp: rnd_def Let_def)

lemma rnd_lower:
  assumes "0 < c" "c \<le> x" "rnd_mag c = c" "- 1074 \<le> ilog2 c"
  shows "fle (Num c) (rnd x)"
proof -
  have x: "0 < x" using assms by simp
  from rnd_pos_cases[OF x] show ?thesis
    using rnd_mag_lower[OF assms] by auto
qed

lemma rnd_ge_10: "10 \<le> x \<Longrightarrow> fle (Num 10) (rnd x)"
proof (rule rnd_lower)
  show "rnd_mag 10 = 10" by code_simp
  show "- 1074 \<le> ilog2 10" by code_simp
qed simp_all

lemma rnd_ge_100: "100 \<le> x \<Longrightarrow> fle (Num 100) (rnd x)"
proof (rule rnd_lower)
  show "rnd_mag 100 = 100" by code_simp
  show "- 1074 \<le> ilog2 100" by code_simp
qed simp_all

lemma rnd_ge_1000: "1000 \<le> x \<Longrightarrow> fle (Num 1000) (rnd x)"
proof (rule rnd_lower)
  show "rnd_mag 1000 = 1000" by code_simp
  show "- 1074 \<le> ilog2 1000" by code_simp
qed simp_all

section \<open>Orders that pass validation\<close>

lemma fle_zero_cases: "fle (Num 0) d \<longleftrightarrow> d = PosInf \<or> (\<exists>a. d = Num a \<and> 0 \<le> a)"
  by (cases d) auto

lemma fmul_nonneg_pos:
  assumes "fle (Num 0) x" "0 < b"
  shows "fle (Num 0) (fmul x (Num b))"
proof (cases x)
  case (Num a)
  then have "0 \<le> a * b" using assms by simp
  then show ?thesis using Num by (simp add: rnd_nonneg)
next
  case PosInf
  then show ?thesis using assms by (simp add: inf_of_sign_def)
qed (use assms in simp_all)

lemma fadd_nonneg:
  assumes "fle (Num 0) x" "fle (Num 0) y"
  shows "fle (Num 0) (fadd x y)"
  using assms by (cases x; cases y) (simp_all add: rnd_nonneg)

lemma tax_factor: "fadd (Num 1) ELECTRONICS_TAX_RATE = Num (2476979795053773 / 2251799813685248)"
  by code_simp

lemma discount_factor: "fsub (Num 1) BOOK_BULK_DISCOUNT_RATE = Num (4278419646001971 / 4503599627370496)"
  by code_simp

lemma getTotalPrice_nonneg:
  assumes "valid_item item"
  shows "fle (Num 0) (getTotalPrice item)"
proof -
  have "0 < sint (quantity item)" using assms by (simp add: valid_item_def)
  then have "0 < (of_int (sint (quantity item)) :: rat)" by (simp only: of_int_0_less_iff)
  moreover have "fle (Num 0) (price item)" using assms by (simp add: valid_item_def fge_def)
  ultimately show ?thesis
    unfolding getTotalPrice_def double_of_int_def by (intro fmul_nonneg_pos)
qed

lemma calculateItemTotal_nonneg:
  assumes "valid_item item"
  shows "fle (Num 0) (calculateItemTotal item)"
  using getTotalPrice_nonneg[OF assms]
  by (simp add: calculateItemTotal_def Let_def applyElectronicsTax_def applyBookDiscount_def
      tax_factor discount_factor fmul_nonneg_pos)

lemma subtotalLoop_nonneg:
  "fle (Num 0) s \<Longrightarrow> list_all valid_item xs \<Longrightarrow> fle (Num 0) (subtotalLoop s xs)"
  by (induction xs arbitrary: s) (simp_all add: fadd_nonneg calculateItemTotal_nonneg)

lemma calculateSubtotal_nonneg:
  "list_all valid_item xs \<Longrightarrow> fle (Num 0) (calculateSubtotal xs)"
  unfolding calculateSubtotal_def by (rule subtotalLoop_nonneg) simp_all

lemma validateLoop_valid:
  "list_all valid_item xs \<Longrightarrow> validateLoop xs = Inr ()"
proof (induction xs)
  case Nil
  show ?case by simp
next
  case (Cons item rest)
  then have v: "valid_item item" and r: "validateLoop rest = Inr ()" by simp_all
  have "\<not> flt (price item) (Num 0)"
    using v by (cases "price item") (simp_all add: valid_item_def fge_def)
  then show ?case using v r by (simp add: valid_item_def)
qed

lemma round2_ge_10:
  assumes "fle (Num 10) t"
  shows "fle (Num 10) (fdiv (std_round (fmul t (Num 100))) (Num 100))"
proof (cases t)
  case (Num a)
  then have a: "10 \<le> a" using assms by simp
  then have "1000 \<le> a * 100" by simp
  from rnd_ge_1000[OF this] have m: "fle (Num 1000) (fmul t (Num 100))" using Num by simp
  show ?thesis
  proof (cases "fmul t (Num 100)")
    case (Num y)
    then have y: "1000 \<le> y" using m by simp
    then have "1000 \<le> \<lfloor>y + 1 / 2\<rfloor>" by linarith
    then have "(1000::rat) \<le> of_int \<lfloor>y + 1 / 2\<rfloor>" by linarith
    then have "10 \<le> (of_int \<lfloor>y + 1 / 2\<rfloor> :: rat) / 100" by simp
    from rnd_ge_10[OF this] show ?thesis using Num y by simp
  next
    case PosInf
    then show ?thesis by (simp add: inf_of_sign_def)
  qed (use m in simp_all)
next
  case PosInf
  then show ?thesis by (simp add: inf_of_sign_def)
qed (use assms in simp_all)

lemma total_amount_ge_10:
  assumes "fle (Num 0) s"
  shows "fle (Num 10) (fadd s (calculateShippingCost s))"
proof (cases s)
  case (Num a)
  show ?thesis
  proof (cases "100 \<le> a")
    case True
    then have "100 \<le> a + 0" by simp
    from rnd_ge_100[OF this] have "fle (Num 100) (rnd (a + 0))" .
    then have "fle (Num 10) (rnd (a + 0))" by (cases "rnd (a + 0)") simp_all
    then show ?thesis using Num True
      by (simp add: calculateShippingCost_def FREE_SHIPPING_THRESHOLD_def fge_def)
  next
    case False
    have "0 \<le> a" using assms Num by simp
    then have "10 \<le> a + 10" by simp
    from rnd_ge_10[OF this] show ?thesis using Num False
      by (simp add: calculateShippingCost_def FREE_SHIPPING_THRESHOLD_def fge_def
          STANDARD_SHIPPING_COST_def)
  qed
next
  case PosInf
  then show ?thesis
    by (simp add: calculateShippingCost_def FREE_SHIPPING_THRESHOLD_def fge_def)
qed (use assms in simp_all)

section \<open>Category names\<close>

lemma of_char_toupper:
  "(of_char (toupper c) :: nat) =
     (if 97 \<le> (of_char c :: nat) \<and> (of_char c :: nat) \<le> 122 then of_char c - 32 else of_char c)"
proof -
  have "(of_char c - 32 :: nat) < 256"
    using nat_of_char_less_256[of c] by linarith
  then have "(of_char c - 32 :: nat) mod 256 = of_char c - 32" by (rule mod_less)
  then show ?thesis by (simp add: toupper_def Let_def)
qed

lemma of_char_tolower:
  "(of_char (tolower c) :: nat) =
     (if 65 \<le> (of_char c :: nat) \<and> (of_char c :: nat) \<le> 90 then of_char c + 32 else of_char c)"
  by (simp add: tolower_def Let_def)

lemma char_eq_iff_code: "c = d \<longleftrightarrow> (of_char c :: nat) = of_char d"
  by simp

lemma toupper_eq_iff_tolower_eq:
  "toupper c = toupper d \<longleftrightarrow> tolower c = tolower d"
proof -
  define m where "m = (of_char c :: nat)"
  define n where "n = (of_char d :: nat)"
  have cd: "c = d \<longleftrightarrow> m = n" by (simp add: m_def n_def)
  have "toupper c = toupper d \<longleftrightarrow>
    (if 97 \<le> m \<and> m \<le> 122 then m - 32 else m) = (if 97 \<le> n \<and> n \<le> 122 then n - 32 else n)"
    unfolding char_eq_iff_code[of "toupper c"] of_char_toupper m_def n_def ..
  moreover have "tolower c = tolower d \<longleftrightarrow>
    (if 65 \<le> m \<and> m \<le> 90 then m + 32 else m) = (if 65 \<le> n \<and> n \<le> 90 then n + 32 else n)"
    unfolding char_eq_iff_code[of "tolower c"] of_char_tolower m_def n_def ..
  ultimately show ?thesis by (auto split: if_splits)
qed

lemma map_toupper_eq_iff:
  "map toupper s = map toupper t \<longleftrightarrow> map tolower s = map tolower t"
proof (induction s arbitrary: t)
  case Nil
  show ?case by simp
next
  case (Cons c s)
  show ?case by (cases t) (simp_all add: Cons.IH toupper_eq_iff_tolower_eq)
qed

lemma toUpperCase_eq_iff:
  assumes "map toupper t = t"
  shows "toUpperCase s = t \<longleftrightarrow> equal_ignoring_case s t"
  unfolding toUpperCase_def equal_ignoring_case_def
  using map_toupper_eq_iff[of s t] assms by simp

lemma upper_ELECTRONICS: "map toupper ''ELECTRONICS'' = ''ELECTRONICS''"
  by code_simp

lemma upper_BOOKS: "map toupper ''BOOKS'' = ''BOOKS''"
  by code_simp

subsection \<open>The model on known doubles\<close>

text \<open>
  The literal \<^verbatim>\<open>0.1\<close> is the double \<open>3602879701896397 / 2 ^ 55\<close>; \<^verbatim>\<open>0.1 + 0.2\<close> is
  not the double \<^verbatim>\<open>0.3\<close>; \<^verbatim>\<open>1e16 + 1.0\<close> is a tie and rounds to the even
  \<^verbatim>\<open>1e16\<close>, so that adding \<^verbatim>\<open>1.0\<close> twice to \<^verbatim>\<open>1e16\<close> and adding \<^verbatim>\<open>2.0\<close>
  once differ.
\<close>

lemma binary64_examples:
  "rnd (1 / 10) = Num (3602879701896397 / 36028797018963968)"
  "fadd (rnd (1 / 10)) (rnd (2 / 10)) = Num (1351079888211149 / 4503599627370496)"
  "rnd (3 / 10) = Num (5404319552844595 / 18014398509481984)"
  "fadd (Num 10000000000000000) (Num 1) = Num 10000000000000000"
  "fadd (fadd (Num 1) (Num 1)) (Num 10000000000000000) = Num 10000000000000002"
  by code_simp+

section \<open>Validation\<close>

lemma validateLoop_ok_iff:
  "validateLoop xs = Inr () \<longleftrightarrow> (\<forall>x\<in>set xs. \<not> item_violation x)"
  by (induction xs) (auto simp: item_violation_def)

lemma validateLoop_first_violation:
  assumes "\<forall>x\<in>set pre. \<not> item_violation x" "item_violation item"
  shows "validateLoop (pre @ item # post) = Inl (item_error item)"
  using assms
proof (induction pre)
  case Nil
  then show ?case by (auto simp: item_violation_def item_error_def)
next
  case (Cons a pre)
  then have "\<not> item_violation a" by simp
  then show ?case using Cons by (simp add: item_violation_def)
qed

lemma validateOrderItems_first_violation:
  assumes "\<forall>x\<in>set pre. \<not> item_violation x" "item_violation item"
  shows "validateOrderItems (pre @ item # post) = Inl (item_error item)"
  using validateLoop_first_violation[OF assms] by (simp add: validateOrderItems_def)

lemma calculateOrderTotal_first_violation:
  assumes "\<forall>x\<in>set pre. \<not> item_violation x" "item_violation item"
  shows "calculateOrderTotal (pre @ item # post) = Inl (item_error item)"
  using validateOrderItems_first_violation[OF assms] by (simp add: calculateOrderTotal_def)

lemma item_error_names_item:
  assumes "item_violation item"
  shows "\<exists>text. item_error item = InvalidArgument (text @ productName item)"
  using assms by (auto simp: item_error_def item_violation_def)

lemma validateOrderItems_ok_iff:
  "validateOrderItems xs = Inr () \<longleftrightarrow> xs \<noteq> [] \<and> (\<forall>x\<in>set xs. \<not> item_violation x)"
  by (simp add: validateOrderItems_def validateLoop_ok_iff)

lemma calculateOrderTotal_ok:
  assumes "validateOrderItems orderItems = Inr ()"
  shows "calculateOrderTotal orderItems =
           Inr (fdiv (std_round (fmul (fadd (calculateSubtotal orderItems)
                  (calculateShippingCost (calculateSubtotal orderItems))) (Num 100))) (Num 100))"
  using assms by (simp add: calculateOrderTotal_def Let_def)

lemma calculateOrderTotal_Inl_iff:
  "(\<exists>e. calculateOrderTotal xs = Inl e) \<longleftrightarrow> validateOrderItems xs \<noteq> Inr ()"
  by (cases "validateOrderItems xs") (simp_all add: calculateOrderTotal_def Let_def)

section \<open>Subtotal and final rounding\<close>

lemma subtotalLoop_foldl:
  "subtotalLoop s xs = foldl fadd s (map calculateItemTotal xs)"
  by (induction xs arbitrary: s) simp_all

lemma std_round_half_away:
  "\<exists>n. std_round (Num x) = Num (of_int n) \<and> is_round_half_away x n"
proof (cases "0 \<le> x")
  case True
  define n where "n = \<lfloor>x + 1 / 2\<rfloor>"
  have "of_int n \<le> x + 1 / 2" "x + 1 / 2 < of_int n + 1" unfolding n_def by linarith+
  then have "is_round_half_away x n" using True
    unfolding is_round_half_away_def by (auto simp: abs_if)
  then show ?thesis using True by (auto simp: n_def)
next
  case False
  define k where "k = \<lfloor>- x + 1 / 2\<rfloor>"
  have "of_int k \<le> - x + 1 / 2" "- x + 1 / 2 < of_int k + 1" unfolding k_def by linarith+
  then have r: "is_round_half_away x (- k)" using False
    unfolding is_round_half_away_def by (auto simp: abs_if)
  have "std_round (Num x) = Num (of_int (- k))" using False by (simp add: k_def)
  with r show ?thesis by blast
qed

lemma round_half_away_unique:
  assumes "is_round_half_away x m" "is_round_half_away x n"
  shows "m = n"
proof (rule ccontr)
  assume ne: "m \<noteq> n"
  have d: "\<bar>(of_int m :: rat) - of_int n\<bar> \<le> 1"
    using assms unfolding is_round_half_away_def by linarith
  have "\<bar>m - n\<bar> \<le> 1"
  proof -
    have "(of_int \<bar>m - n\<bar> :: rat) \<le> of_int 1" using d by simp
    then show ?thesis by (simp only: of_int_le_iff)
  qed
  then have "m = n + 1 \<or> n = m + 1" using ne by linarith
  then show False
    using assms unfolding is_round_half_away_def by (auto simp: abs_if split: if_splits)
qed

lemma exact_additions_foldl:
  "exact_additions (Num a) xs \<Longrightarrow> foldl fadd (Num a) xs = Num (a + sum_list (map num_value xs))"
proof (induction xs arbitrary: a)
  case Nil
  show ?case by simp
next
  case (Cons x xs)
  then obtain b where x: "x = Num b" by (cases x) simp_all
  from Cons.prems x have e: "fadd (Num a) (Num b) = Num (a + b)"
    and r: "exact_additions (Num (a + b)) xs" by simp_all
  from Cons.IH[OF r] show ?case using x e by (simp only: foldl_Cons list.map sum_list.Cons num_value.simps) (simp add: add.assoc)
qed

lemma exact_subtotal_value:
  assumes "exact_subtotal orderItems"
  shows "calculateSubtotal orderItems =
           Num (sum_mset (image_mset (\<lambda>item. num_value (calculateItemTotal item)) (mset orderItems)))"
proof -
  have "calculateSubtotal orderItems = foldl fadd (Num 0) (map calculateItemTotal orderItems)"
    by (simp add: calculateSubtotal_def subtotalLoop_foldl)
  also have "\<dots> = Num (0 + sum_list (map num_value (map calculateItemTotal orderItems)))"
    using assms unfolding exact_subtotal_def by (rule exact_additions_foldl)
  also have "sum_list (map num_value (map calculateItemTotal orderItems))
      = sum_mset (image_mset (\<lambda>item. num_value (calculateItemTotal item)) (mset orderItems))"
    by (simp add: sum_mset_sum_list[symmetric] comp_def)
  finally show ?thesis by simp
qed

lemma validateOrderItems_permute:
  assumes "mset ys = mset xs" "validateOrderItems xs = Inr ()"
  shows "validateOrderItems ys = Inr ()"
proof -
  have "set ys = set xs" using assms(1) by (rule mset_eq_setD)
  moreover have "ys \<noteq> []" using assms by (auto simp: validateOrderItems_ok_iff)
  ultimately show ?thesis using assms(2) by (simp add: validateOrderItems_ok_iff)
qed

section \<open>The policy of a category\<close>

lemma calculateItemTotal_policy:
  "calculateItemTotal item =
     (if equal_ignoring_case (category item) ''ELECTRONICS''
      then fmul (getTotalPrice item) (fadd (Num 1) (rnd (10 / 100)))
      else if equal_ignoring_case (category item) ''BOOKS''
      then (if 5 \<le> sint (quantity item)
            then fmul (getTotalPrice item) (fsub (Num 1) (rnd (5 / 100)))
            else getTotalPrice item)
      else getTotalPrice item)"
proof -
  have five: "sint (5 :: 32 word) = 5" by simp
  show ?thesis
    unfolding calculateItemTotal_def Let_def ELECTRONICS_CATEGORY_def BOOKS_CATEGORY_def
      toUpperCase_eq_iff[OF upper_ELECTRONICS] toUpperCase_eq_iff[OF upper_BOOKS]
      applyElectronicsTax_def applyBookDiscount_def ELECTRONICS_TAX_RATE_def
      BOOK_BULK_DISCOUNT_RATE_def BOOK_BULK_QUANTITY_THRESHOLD_def five
    by simp
qed

lemma books_not_electronics:
  "equal_ignoring_case c ''BOOKS'' \<Longrightarrow> \<not> equal_ignoring_case c ''ELECTRONICS''"
proof
  assume "equal_ignoring_case c ''BOOKS''" "equal_ignoring_case c ''ELECTRONICS''"
  then have "length (map tolower c) = 5" "length (map tolower c) = 11"
    unfolding equal_ignoring_case_def by simp_all
  then show False by simp
qed

lemma lamp_then_bulb:
  "valid_order [\<lparr>productName = ''Lamp'', price = Num 95, quantity = 1, category = ''''\<rparr>]
   \<and> valid_item \<lparr>productName = ''Bulb'', price = Num 5, quantity = 1, category = ''''\<rparr>
   \<and> flt (Num 0) (price \<lparr>productName = ''Bulb'', price = Num 5, quantity = 1, category = ''''\<rparr>)
   \<and> calculateOrderTotal
        [\<lparr>productName = ''Lamp'', price = Num 95, quantity = 1, category = ''''\<rparr>]
      = Inr (Num 105)
   \<and> calculateOrderTotal
        ([\<lparr>productName = ''Lamp'', price = Num 95, quantity = 1, category = ''''\<rparr>]
         @ [\<lparr>productName = ''Bulb'', price = Num 5, quantity = 1, category = ''''\<rparr>])
      = Inr (Num 100)
   \<and> flt (Num 100) (Num 105)"
  by code_simp

subsection \<open>The error of the scaling by 100\<close>

lemma rne_error: "\<bar>of_int (rne y) - y\<bar> \<le> 1 / 2"
proof -
  define m where "m = \<lfloor>y\<rfloor>"
  have b: "of_int m \<le> y" "y < of_int m + 1" unfolding m_def by linarith+
  consider "y - of_int m < 1 / 2" | "1 / 2 < y - of_int m" | "y - of_int m = 1 / 2"
    by linarith
  then show ?thesis
  proof cases
    case 1
    then have "rne y = m" by (simp add: rne_def Let_def m_def)
    then show ?thesis using 1 b by simp
  next
    case 2
    then have "rne y = m + 1" by (simp add: rne_def Let_def m_def)
    then show ?thesis using 2 b by simp
  next
    case 3
    then have "rne y = m \<or> rne y = m + 1" by (simp add: rne_def Let_def m_def)
    then show ?thesis using 3 by auto
  qed
qed

lemma rnd_mag_error:
  "\<bar>rnd_mag x - x\<bar> \<le> 2 powi qexp x / 2"
proof -
  define q where "q = (2::rat) powi qexp x"
  have q: "0 < q" by (simp add: q_def)
  have "rnd_mag x - x = (of_int (rne (x / q)) - x / q) * q"
    using q by (simp add: rnd_mag_def q_def field_simps)
  then have "\<bar>rnd_mag x - x\<bar> = \<bar>of_int (rne (x / q)) - x / q\<bar> * q"
    using q by (simp add: abs_mult)
  also have "\<dots> \<le> (1 / 2) * q"
    using rne_error[of "x / q"] q by (intro mult_right_mono) simp_all
  finally show ?thesis by (simp add: q_def)
qed

lemma rnd_error_normal:
  assumes "0 < x" "- 1022 \<le> ilog2 x" "rnd x = Num s"
  shows "\<bar>s - x\<bar> \<le> x / 2 ^ 53"
proof -
  have s: "s = rnd_mag x"
    using assms(1,3) by (simp add: rnd_def Let_def split: if_splits)
  have qe: "qexp x = ilog2 x - 52" using assms(2) by (simp add: qexp_def)
  have "(2::rat) powi (ilog2 x - 52) = 2 powi ilog2 x * 2 powi (- 52)"
    using powi_add[of "ilog2 x" "- 52"] by simp
  also have "(2::rat) powi (- 52) = 1 / 2 ^ 52" by (simp add: power_int_def field_simps)
  finally have "(2::rat) powi qexp x / 2 = 2 powi ilog2 x / 2 ^ 53" by (simp add: qe)
  also have "\<dots> \<le> x / 2 ^ 53"
    using ilog2_bounds[OF assms(1)] by (simp add: divide_right_mono)
  finally show ?thesis using rnd_mag_error[of x] s by linarith
qed

lemma floor_half_is_round_half_away:
  assumes "0 \<le> x"
  shows "is_round_half_away x \<lfloor>x + 1 / 2\<rfloor>"
proof -
  define n where "n = \<lfloor>x + 1 / 2\<rfloor>"
  have "of_int n \<le> x + 1 / 2" "x + 1 / 2 < of_int n + 1" unfolding n_def by linarith+
  then have "is_round_half_away x n" using assms
    unfolding is_round_half_away_def by (auto simp: abs_if)
  then show ?thesis by (simp only: n_def)
qed

lemma floor_half_stable:
  fixes s x e :: rat
  assumes "\<bar>s - x\<bar> \<le> e" "e < frac (x + 1 / 2)" "e < 1 - frac (x + 1 / 2)"
  shows "\<lfloor>s + 1 / 2\<rfloor> = \<lfloor>x + 1 / 2\<rfloor>"
proof -
  define m where "m = \<lfloor>x + 1 / 2\<rfloor>"
  have f: "frac (x + 1 / 2) = x + 1 / 2 - of_int m" by (simp add: frac_def m_def)
  have "of_int m \<le> s + 1 / 2" using assms(1,2) f by linarith
  moreover have "s + 1 / 2 < of_int m + 1" using assms(1,3) f by linarith
  ultimately have "\<lfloor>s + 1 / 2\<rfloor> = m" by (rule floor_unique)
  then show ?thesis by (simp only: m_def)
qed

lemma ilog2_1000: "ilog2 1000 = 9"
  by code_simp

lemma scaled_total:
  assumes "valid_order orderItems"
    and "fadd (calculateSubtotal orderItems)
              (calculateShippingCost (calculateSubtotal orderItems)) = Num a"
    and "fmul (Num a) (Num 100) = Num s"
  shows "10 \<le> a" "1000 \<le> s" "\<bar>s - a * 100\<bar> \<le> a * 100 / 2 ^ 53"
    "calculateOrderTotal orderItems = Inr (rnd (of_int \<lfloor>s + 1 / 2\<rfloor> / 100))"
proof -
  have ne: "orderItems \<noteq> []" and all: "list_all valid_item orderItems"
    using assms(1) by (simp_all add: valid_order_def)
  have v: "validateOrderItems orderItems = Inr ()"
    using ne validateLoop_valid[OF all] by (simp add: validateOrderItems_def)
  have "fle (Num 0) (calculateSubtotal orderItems)" using all by (rule calculateSubtotal_nonneg)
  from total_amount_ge_10[OF this] show a: "10 \<le> a" by (simp add: assms(2))
  then have x: "1000 \<le> a * 100" by simp
  have r: "rnd (a * 100) = Num s" using assms(3) by simp
  from rnd_ge_1000[OF x] show s: "1000 \<le> s" by (simp add: r)
  have "ilog2 1000 \<le> ilog2 (a * 100)" using x by (intro ilog2_mono) simp_all
  then have "- 1022 \<le> ilog2 (a * 100)" by (simp add: ilog2_1000)
  moreover have "0 < a * 100" using x by simp
  ultimately show "\<bar>s - a * 100\<bar> \<le> a * 100 / 2 ^ 53" using r by (intro rnd_error_normal)
  have "0 \<le> s" using s by simp
  then have "std_round (Num s) = Num (of_int \<lfloor>s + 1 / 2\<rfloor>)" by simp
  then show "calculateOrderTotal orderItems = Inr (rnd (of_int \<lfloor>s + 1 / 2\<rfloor> / 100))"
    using calculateOrderTotal_ok[OF v] assms(2,3) by simp
qed

lemma getTotalPrice_Num:
  "price item = Num p \<Longrightarrow> getTotalPrice item = rnd (p * of_int (sint (quantity item)))"
  by (simp add: getTotalPrice_def double_of_int_def)

section \<open>Properties\<close>

text \<open>
  C1. For every item the adjusted line total follows the policy of its category, matched
  without regard to case: ELECTRONICS multiplies the line total (unit price times
  quantity) by \<open>1 + 0.10\<close>, BOOKS multiplies it by \<open>1 - 0.05\<close> when the quantity is 5
  or more (5 itself included) and leaves it unchanged below 5, and every other category,
  the empty one too, leaves it unchanged. Sums and products are those of binary64.
\<close>

theorem item_total_by_category:
  "calculateItemTotal item =
     (if equal_ignoring_case (category item) ''ELECTRONICS''
      then fmul (getTotalPrice item) (fadd (Num 1) (rnd (10 / 100)))
      else if equal_ignoring_case (category item) ''BOOKS''
      then (if 5 \<le> sint (quantity item)
            then fmul (getTotalPrice item) (fsub (Num 1) (rnd (5 / 100)))
            else getTotalPrice item)
      else getTotalPrice item)
   \<and> getTotalPrice item = fmul (price item) (Num (of_int (sint (quantity item))))"
  using calculateItemTotal_policy[of item]
  by (simp add: getTotalPrice_def double_of_int_def)

theorem item_total_by_category_witness:
  "calculateItemTotal
     \<lparr>productName = ''Novel'', price = Num 10, quantity = 5, category = ''Books''\<rparr>
   = Num (95 / 2)
   \<and> calculateItemTotal
     \<lparr>productName = ''Novel'', price = Num 10, quantity = 4, category = ''bOOKs''\<rparr>
   = Num 40
   \<and> calculateItemTotal
     \<lparr>productName = ''Phone'', price = Num 100, quantity = 1, category = ''electronics''\<rparr>
   = Num (7740561859543041 / 70368744177664)
   \<and> calculateItemTotal
     \<lparr>productName = ''Mouse Pad'', price = Num 2, quantity = 2, category = ''''\<rparr>
   = Num 4"
proof -
  let ?a = "\<lparr>productName = ''Novel'', price = Num 10, quantity = 5, category = ''Books''\<rparr>"
  let ?b = "\<lparr>productName = ''Novel'', price = Num 10, quantity = 4, category = ''bOOKs''\<rparr>"
  let ?c = "\<lparr>productName = ''Phone'', price = Num 100, quantity = 1, category = ''electronics''\<rparr>"
  let ?d = "\<lparr>productName = ''Mouse Pad'', price = Num 2, quantity = 2, category = ''''\<rparr>"
  have a: "(if equal_ignoring_case (category ?a) ''ELECTRONICS''
      then fmul (getTotalPrice ?a) (fadd (Num 1) (rnd (10 / 100)))
      else if equal_ignoring_case (category ?a) ''BOOKS''
      then (if 5 \<le> sint (quantity ?a)
            then fmul (getTotalPrice ?a) (fsub (Num 1) (rnd (5 / 100)))
            else getTotalPrice ?a)
      else getTotalPrice ?a) = Num (95 / 2)" by code_simp
  have b: "(if equal_ignoring_case (category ?b) ''ELECTRONICS''
      then fmul (getTotalPrice ?b) (fadd (Num 1) (rnd (10 / 100)))
      else if equal_ignoring_case (category ?b) ''BOOKS''
      then (if 5 \<le> sint (quantity ?b)
            then fmul (getTotalPrice ?b) (fsub (Num 1) (rnd (5 / 100)))
            else getTotalPrice ?b)
      else getTotalPrice ?b) = Num 40" by code_simp
  have c: "(if equal_ignoring_case (category ?c) ''ELECTRONICS''
      then fmul (getTotalPrice ?c) (fadd (Num 1) (rnd (10 / 100)))
      else if equal_ignoring_case (category ?c) ''BOOKS''
      then (if 5 \<le> sint (quantity ?c)
            then fmul (getTotalPrice ?c) (fsub (Num 1) (rnd (5 / 100)))
            else getTotalPrice ?c)
      else getTotalPrice ?c) = Num (7740561859543041 / 70368744177664)" by code_simp
  have d: "(if equal_ignoring_case (category ?d) ''ELECTRONICS''
      then fmul (getTotalPrice ?d) (fadd (Num 1) (rnd (10 / 100)))
      else if equal_ignoring_case (category ?d) ''BOOKS''
      then (if 5 \<le> sint (quantity ?d)
            then fmul (getTotalPrice ?d) (fsub (Num 1) (rnd (5 / 100)))
            else getTotalPrice ?d)
      else getTotalPrice ?d) = Num 4" by code_simp
  from item_total_by_category[of ?a] item_total_by_category[of ?b]
    item_total_by_category[of ?c] item_total_by_category[of ?d] a b c d
  show ?thesis by metis
qed

text \<open>
  C2. \<^verbatim>\<open>calculateOrderTotal\<close> throws exactly when the order is empty or some item has
  a quantity of 0 or less, a price below 0 or an empty product name; otherwise it returns
  a total. The result is either the exception or the total, never both. For the empty
  order the message is \<^verbatim>\<open>Order must contain at least one item\<close>.
\<close>

theorem order_total_fails_iff:
  "((\<exists>e. calculateOrderTotal orderItems = Inl e) \<longleftrightarrow>
      (orderItems = [] \<or> (\<exists>item\<in>set orderItems.
         sint (quantity item) \<le> 0 \<or> flt (price item) (Num 0) \<or> productName item = [])))
   \<and> ((\<exists>t. calculateOrderTotal orderItems = Inr t) \<longleftrightarrow>
      \<not> (orderItems = [] \<or> (\<exists>item\<in>set orderItems.
         sint (quantity item) \<le> 0 \<or> flt (price item) (Num 0) \<or> productName item = [])))
   \<and> calculateOrderTotal [] = Inl (InvalidArgument ''Order must contain at least one item'')"
proof -
  have a: "(\<exists>e. calculateOrderTotal orderItems = Inl e) \<longleftrightarrow>
      (orderItems = [] \<or> (\<exists>item\<in>set orderItems. item_violation item))"
    unfolding calculateOrderTotal_Inl_iff validateOrderItems_ok_iff by auto
  have b: "(\<exists>t. calculateOrderTotal orderItems = Inr t) \<longleftrightarrow> \<not> (\<exists>e. calculateOrderTotal orderItems = Inl e)"
    by (cases "calculateOrderTotal orderItems") simp_all
  have c: "calculateOrderTotal [] = Inl (InvalidArgument ''Order must contain at least one item'')"
    by (simp add: calculateOrderTotal_def validateOrderItems_def)
  show ?thesis using a b c unfolding item_violation_def by simp
qed

theorem order_total_fails_iff_witness:
  "(\<exists>e. calculateOrderTotal
      [\<lparr>productName = ''Pen'', price = Num 2, quantity = 3, category = ''''\<rparr>,
       \<lparr>productName = ''Ink'', price = Num (- 1), quantity = 1, category = ''''\<rparr>] = Inl e)
   \<and> (\<exists>t. calculateOrderTotal
      [\<lparr>productName = ''Pen'', price = Num 2, quantity = 3, category = ''''\<rparr>] = Inr t)"
proof -
  let ?pen = "\<lparr>productName = ''Pen'', price = Num 2, quantity = 3, category = ''''\<rparr>"
  let ?ink = "\<lparr>productName = ''Ink'', price = Num (- 1), quantity = 1, category = ''''\<rparr>"
  have bad: "[?pen, ?ink] = [] \<or> (\<exists>item\<in>set [?pen, ?ink].
         sint (quantity item) \<le> 0 \<or> flt (price item) (Num 0) \<or> productName item = [])"
    by simp
  have good: "\<not> ([?pen] = [] \<or> (\<exists>item\<in>set [?pen].
         sint (quantity item) \<le> 0 \<or> flt (price item) (Num 0) \<or> productName item = []))"
    by simp
  from order_total_fails_iff[of "[?pen, ?ink]"] bad
  have 1: "\<exists>e. calculateOrderTotal [?pen, ?ink] = Inl e" by blast
  from order_total_fails_iff[of "[?pen]"] good
  have 2: "\<exists>t. calculateOrderTotal [?pen] = Inr t" by blast
  from 1 2 show ?thesis by (rule conjI)
qed

text \<open>
  C3. The shipping cost is 0 for a subtotal of 100.00 or more, 100.00 itself included, and
  10.00 for a subtotal below 100.00; \<^verbatim>\<open>calculateOrderTotal\<close> adds the shipping cost of
  the subtotal to the subtotal.
\<close>

theorem shipping_cost_by_subtotal:
  "(fge subtotal (Num 100) \<longrightarrow> calculateShippingCost subtotal = Num 0)
   \<and> (flt subtotal (Num 100) \<longrightarrow> calculateShippingCost subtotal = Num 10)
   \<and> calculateShippingCost (Num 100) = Num 0
   \<and> (validateOrderItems orderItems = Inr () \<longrightarrow>
        calculateOrderTotal orderItems =
          Inr (fdiv (std_round (fmul (fadd (calculateSubtotal orderItems)
                 (calculateShippingCost (calculateSubtotal orderItems))) (Num 100))) (Num 100)))"
proof -
  have "flt subtotal (Num 100) \<Longrightarrow> \<not> fle (Num 100) subtotal"
    by (cases subtotal) simp_all
  then show ?thesis
    using calculateOrderTotal_ok[of orderItems]
    by (auto simp: calculateShippingCost_def FREE_SHIPPING_THRESHOLD_def
        STANDARD_SHIPPING_COST_def fge_def)
qed

theorem shipping_cost_by_subtotal_witness:
  "fge (Num 250) (Num 100) \<and> calculateShippingCost (Num 250) = Num 0
   \<and> flt (Num (9999 / 100)) (Num 100) \<and> calculateShippingCost (Num (9999 / 100)) = Num 10
   \<and> validateOrderItems
        [\<lparr>productName = ''Desk'', price = Num 100, quantity = 1, category = ''''\<rparr>] = Inr ()
   \<and> calculateOrderTotal
        [\<lparr>productName = ''Desk'', price = Num 100, quantity = 1, category = ''''\<rparr>]
      = Inr (Num 100)"
proof -
  let ?desk = "\<lparr>productName = ''Desk'', price = Num 100, quantity = 1, category = ''''\<rparr>"
  have a: "fge (Num 250) (Num 100)" by (simp add: fge_def)
  have b: "flt (Num (9999 / 100)) (Num 100)" by simp
  have v: "validateOrderItems [?desk] = Inr ()" by (simp add: validateOrderItems_def)
  have e: "fdiv (std_round (fmul (fadd (calculateSubtotal [?desk])
                 (calculateShippingCost (calculateSubtotal [?desk]))) (Num 100))) (Num 100)
           = Num 100" by code_simp
  from shipping_cost_by_subtotal[of "Num 250" "[?desk]"] a
  have 1: "calculateShippingCost (Num 250) = Num 0" by blast
  from shipping_cost_by_subtotal[of "Num (9999 / 100)" "[?desk]"] b
  have 2: "calculateShippingCost (Num (9999 / 100)) = Num 10" by blast
  from shipping_cost_by_subtotal[of "Num 250" "[?desk]"] v e
  have 3: "calculateOrderTotal [?desk] = Inr (Num 100)" by metis
  from a 1 b 2 v 3 show ?thesis by blast
qed

text \<open>
  C4. The total is not always the sum of subtotal and shipping cost rounded to two
  decimal places with halfway cases away from zero, and \<^verbatim>\<open>getTotalPrice\<close> is not always
  the exact product. For one item priced \<^verbatim>\<open>1.005\<close> the sum is the double
  11.004999999999999..., below 11.005, whose cents are 1100; the calculator returns 11.01,
  because the product of the sum and \<^verbatim>\<open>100.0\<close> rounds to 1100.5. For the price
  \<^verbatim>\<open>0.1\<close> and quantity 3, \<^verbatim>\<open>getTotalPrice\<close> is 0.30000000000000004..., not three
  times the price.
\<close>

theorem total_is_not_the_exact_cent_rounding:
  "valid_order
     [\<lparr>productName = ''Pin'', price = rnd (1005 / 1000), quantity = 1, category = ''''\<rparr>]
   \<and> fadd (calculateSubtotal
        [\<lparr>productName = ''Pin'', price = rnd (1005 / 1000), quantity = 1, category = ''''\<rparr>])
       (calculateShippingCost (calculateSubtotal
        [\<lparr>productName = ''Pin'', price = rnd (1005 / 1000), quantity = 1, category = ''''\<rparr>]))
     = Num (3097632118700769 / 281474976710656)
   \<and> 3097632118700769 / 281474976710656 < (11005 / 1000 :: rat)
   \<and> is_round_half_away (3097632118700769 / 281474976710656 * 100) 1100
   \<and> calculateOrderTotal
        [\<lparr>productName = ''Pin'', price = rnd (1005 / 1000), quantity = 1, category = ''''\<rparr>]
     = Inr (rnd (1101 / 100))
   \<and> rnd (1101 / 100) \<noteq> rnd (1100 / 100)
   \<and> price \<lparr>productName = ''Gum'', price = rnd (1 / 10), quantity = 3, category = ''''\<rparr>
     = Num (3602879701896397 / 36028797018963968)
   \<and> getTotalPrice
        \<lparr>productName = ''Gum'', price = rnd (1 / 10), quantity = 3, category = ''''\<rparr>
     = Num (1351079888211149 / 4503599627370496)
   \<and> (1351079888211149 / 4503599627370496 :: rat) \<noteq> 3602879701896397 / 36028797018963968 * 3"
proof -
  let ?pin = "\<lparr>productName = ''Pin'', price = rnd (1005 / 1000), quantity = 1, category = ''''\<rparr>"
  let ?gum = "\<lparr>productName = ''Gum'', price = rnd (1 / 10), quantity = 3, category = ''''\<rparr>"
  have 1: "valid_order [?pin]" by code_simp
  have 2: "fadd (calculateSubtotal [?pin]) (calculateShippingCost (calculateSubtotal [?pin]))
     = Num (3097632118700769 / 281474976710656)" by code_simp
  have 3: "3097632118700769 / 281474976710656 < (11005 / 1000 :: rat)" by simp
  have 4: "is_round_half_away (3097632118700769 / 281474976710656 * 100) 1100"
    by (simp add: is_round_half_away_def)
  have 5: "calculateOrderTotal [?pin] = Inr (rnd (1101 / 100))" by code_simp
  have 6: "rnd (1101 / 100) \<noteq> rnd (1100 / 100)" by code_simp
  have 7: "price ?gum = Num (3602879701896397 / 36028797018963968)" by code_simp
  have 8: "getTotalPrice ?gum = Num (1351079888211149 / 4503599627370496)" by code_simp
  have 9: "(1351079888211149 / 4503599627370496 :: rat) \<noteq> 3602879701896397 / 36028797018963968 * 3"
    by simp
  from 1 2 3 4 5 6 7 8 9 show ?thesis by blast
qed

text \<open>
  C4, as amended. Rounding to cents is applied once, at the end. For a valid order with
  a finite sum \<open>a\<close> of subtotal and shipping cost and a finite binary64 product \<open>s\<close> of
  \<open>a\<close> and 100, the total is the double nearest to \<open>n / 100\<close>, where \<open>n\<close> is \<open>s\<close>
  rounded to the nearest integer with halfway cases away from zero. The product \<open>s\<close> is
  within the relative error \<open>1 / 2 ^ 53\<close> of \<open>a * 100\<close>, and \<open>n\<close> is the cents of \<open>a\<close>
  rounded half away from zero whenever \<open>a * 100\<close> is farther than that error from every
  half-cent boundary. Nothing is rounded to cents per line: the subtotal is the running
  binary64 sum of the binary64 products of price, quantity and the factor of the category,
  and \<^verbatim>\<open>getTotalPrice\<close> is the product of price and quantity rounded to binary64, the
  exact product whenever that is a double.
\<close>

theorem total_rounded_once_at_the_end:
  "(valid_order orderItems
      \<and> fadd (calculateSubtotal orderItems)
              (calculateShippingCost (calculateSubtotal orderItems)) = Num a
      \<and> fmul (Num a) (Num 100) = Num s \<longrightarrow>
    (\<exists>n. calculateOrderTotal orderItems = Inr (rnd (of_int n / 100))
        \<and> is_round_half_away s n
        \<and> \<bar>s - a * 100\<bar> \<le> a * 100 / 2 ^ 53
        \<and> (a * 100 / 2 ^ 53 < frac (a * 100 + 1 / 2)
             \<and> a * 100 / 2 ^ 53 < 1 - frac (a * 100 + 1 / 2) \<longrightarrow>
            is_round_half_away (a * 100) n)))
   \<and> calculateSubtotal orderItems =
       foldl fadd (Num 0)
         (map (\<lambda>item.
            if equal_ignoring_case (category item) ''ELECTRONICS''
            then fmul (fmul (price item) (Num (of_int (sint (quantity item)))))
                   (fadd (Num 1) (rnd (10 / 100)))
            else if equal_ignoring_case (category item) ''BOOKS'' \<and> 5 \<le> sint (quantity item)
            then fmul (fmul (price item) (Num (of_int (sint (quantity item)))))
                   (fsub (Num 1) (rnd (5 / 100)))
            else fmul (price item) (Num (of_int (sint (quantity item))))) orderItems)
   \<and> (price item = Num p \<longrightarrow>
        getTotalPrice item = rnd (p * of_int (sint (quantity item)))
        \<and> (is_double (Num (p * of_int (sint (quantity item)))) \<longrightarrow>
             getTotalPrice item = Num (p * of_int (sint (quantity item)))))"
proof (intro conjI impI)
  assume h: "valid_order orderItems
      \<and> fadd (calculateSubtotal orderItems)
              (calculateShippingCost (calculateSubtotal orderItems)) = Num a
      \<and> fmul (Num a) (Num 100) = Num s"
  then have h1: "valid_order orderItems"
    and h2: "fadd (calculateSubtotal orderItems)
              (calculateShippingCost (calculateSubtotal orderItems)) = Num a"
    and h3: "fmul (Num a) (Num 100) = Num s" by simp_all
  note st = scaled_total[OF h1 h2 h3]
  define n where "n = \<lfloor>s + 1 / 2\<rfloor>"
  have 1: "calculateOrderTotal orderItems = Inr (rnd (of_int n / 100))"
    using st(4) by (simp only: n_def)
  have 2: "is_round_half_away s n"
    unfolding n_def using st(2) by (intro floor_half_is_round_half_away) simp
  have 4: "is_round_half_away (a * 100) n"
    if "a * 100 / 2 ^ 53 < frac (a * 100 + 1 / 2)
        \<and> a * 100 / 2 ^ 53 < 1 - frac (a * 100 + 1 / 2)"
  proof -
    have "n = \<lfloor>a * 100 + 1 / 2\<rfloor>"
      unfolding n_def using floor_half_stable[OF st(3) conjunct1[OF that] conjunct2[OF that]] .
    moreover have "0 \<le> a * 100" using st(1) by simp
    ultimately show ?thesis using floor_half_is_round_half_away by simp
  qed
  from 1 2 st(3) 4
  show "\<exists>n. calculateOrderTotal orderItems = Inr (rnd (of_int n / 100))
        \<and> is_round_half_away s n
        \<and> \<bar>s - a * 100\<bar> \<le> a * 100 / 2 ^ 53
        \<and> (a * 100 / 2 ^ 53 < frac (a * 100 + 1 / 2)
             \<and> a * 100 / 2 ^ 53 < 1 - frac (a * 100 + 1 / 2) \<longrightarrow>
            is_round_half_away (a * 100) n)" by blast
next
  have "calculateItemTotal = (\<lambda>item.
            if equal_ignoring_case (category item) ''ELECTRONICS''
            then fmul (fmul (price item) (Num (of_int (sint (quantity item)))))
                   (fadd (Num 1) (rnd (10 / 100)))
            else if equal_ignoring_case (category item) ''BOOKS'' \<and> 5 \<le> sint (quantity item)
            then fmul (fmul (price item) (Num (of_int (sint (quantity item)))))
                   (fsub (Num 1) (rnd (5 / 100)))
            else fmul (price item) (Num (of_int (sint (quantity item)))))"
    by (rule ext) (simp add: calculateItemTotal_policy getTotalPrice_def double_of_int_def)
  then show "calculateSubtotal orderItems =
       foldl fadd (Num 0)
         (map (\<lambda>item.
            if equal_ignoring_case (category item) ''ELECTRONICS''
            then fmul (fmul (price item) (Num (of_int (sint (quantity item)))))
                   (fadd (Num 1) (rnd (10 / 100)))
            else if equal_ignoring_case (category item) ''BOOKS'' \<and> 5 \<le> sint (quantity item)
            then fmul (fmul (price item) (Num (of_int (sint (quantity item)))))
                   (fsub (Num 1) (rnd (5 / 100)))
            else fmul (price item) (Num (of_int (sint (quantity item))))) orderItems)"
    by (simp only: calculateSubtotal_def subtotalLoop_foldl)
next
  assume p: "price item = Num p"
  then show "getTotalPrice item = rnd (p * of_int (sint (quantity item)))"
    by (rule getTotalPrice_Num)
next
  assume p: "price item = Num p"
    and d: "is_double (Num (p * of_int (sint (quantity item))))"
  from d have "rnd (p * of_int (sint (quantity item))) = Num (p * of_int (sint (quantity item)))"
    by (simp add: is_double_def)
  then show "getTotalPrice item = Num (p * of_int (sint (quantity item)))"
    using getTotalPrice_Num[OF p] by simp
qed

theorem total_rounded_once_at_the_end_witness:
  "valid_order
     [\<lparr>productName = ''Nut'', price = rnd (1004 / 1000), quantity = 1, category = ''''\<rparr>,
      \<lparr>productName = ''Bolt'', price = rnd (1004 / 1000), quantity = 1, category = ''''\<rparr>]
   \<and> fadd (calculateSubtotal
        [\<lparr>productName = ''Nut'', price = rnd (1004 / 1000), quantity = 1, category = ''''\<rparr>,
         \<lparr>productName = ''Bolt'', price = rnd (1004 / 1000), quantity = 1, category = ''''\<rparr>])
       (calculateShippingCost (calculateSubtotal
        [\<lparr>productName = ''Nut'', price = rnd (1004 / 1000), quantity = 1, category = ''''\<rparr>,
         \<lparr>productName = ''Bolt'', price = rnd (1004 / 1000), quantity = 1, category = ''''\<rparr>]))
     = Num (3379951520341557 / 281474976710656)
   \<and> fmul (Num (3379951520341557 / 281474976710656)) (Num 100)
     = Num (5281174250533683 / 4398046511104)
   \<and> is_round_half_away (3379951520341557 / 281474976710656 * 100) 1201
   \<and> calculateOrderTotal
        [\<lparr>productName = ''Nut'', price = rnd (1004 / 1000), quantity = 1, category = ''''\<rparr>,
         \<lparr>productName = ''Bolt'', price = rnd (1004 / 1000), quantity = 1, category = ''''\<rparr>]
     = Inr (rnd (1201 / 100))
   \<and> calculateSubtotal
        [\<lparr>productName = ''Nut'', price = rnd (1004 / 1000), quantity = 1, category = ''''\<rparr>,
         \<lparr>productName = ''Bolt'', price = rnd (1004 / 1000), quantity = 1, category = ''''\<rparr>]
     = Num (2260807012939989 / 1125899906842624)
   \<and> getTotalPrice
        \<lparr>productName = ''Nut'', price = rnd (1004 / 1000), quantity = 1, category = ''''\<rparr>
     = Num (2260807012939989 / 2251799813685248)"
proof -
  let ?nut = "\<lparr>productName = ''Nut'', price = rnd (1004 / 1000), quantity = 1, category = ''''\<rparr>"
  let ?bolt = "\<lparr>productName = ''Bolt'', price = rnd (1004 / 1000), quantity = 1, category = ''''\<rparr>"
  let ?a = "3379951520341557 / 281474976710656 :: rat"
  let ?s = "5281174250533683 / 4398046511104 :: rat"
  let ?p = "2260807012939989 / 2251799813685248 :: rat"
  have 1: "valid_order [?nut, ?bolt]" by code_simp
  have 2: "fadd (calculateSubtotal [?nut, ?bolt])
             (calculateShippingCost (calculateSubtotal [?nut, ?bolt])) = Num ?a" by code_simp
  have 3: "fmul (Num ?a) (Num 100) = Num ?s" by code_simp
  have 4: "?a * 100 / 2 ^ 53 < frac (?a * 100 + 1 / 2)
           \<and> ?a * 100 / 2 ^ 53 < 1 - frac (?a * 100 + 1 / 2)" by code_simp
  have 5: "is_round_half_away (?a * 100) 1201" by (simp add: is_round_half_away_def)
  have 6: "price ?nut = Num ?p" by code_simp
  have 7: "is_double (Num (?p * of_int (sint (quantity ?nut))))" by code_simp
  have 8: "?p * of_int (sint (quantity ?nut)) = ?p" by simp
  have 9: "foldl fadd (Num 0)
         (map (\<lambda>item.
            if equal_ignoring_case (category item) ''ELECTRONICS''
            then fmul (fmul (price item) (Num (of_int (sint (quantity item)))))
                   (fadd (Num 1) (rnd (10 / 100)))
            else if equal_ignoring_case (category item) ''BOOKS'' \<and> 5 \<le> sint (quantity item)
            then fmul (fmul (price item) (Num (of_int (sint (quantity item)))))
                   (fsub (Num 1) (rnd (5 / 100)))
            else fmul (price item) (Num (of_int (sint (quantity item))))) [?nut, ?bolt])
        = Num (2260807012939989 / 1125899906842624)" by code_simp
  note t = total_rounded_once_at_the_end[of "[?nut, ?bolt]" ?a ?s ?nut ?p]
  from t 1 2 3 4 obtain n where n: "calculateOrderTotal [?nut, ?bolt] = Inr (rnd (of_int n / 100))"
    "is_round_half_away (?a * 100) n" by blast
  from round_half_away_unique[OF n(2) 5] have "n = 1201" .
  then have total: "calculateOrderTotal [?nut, ?bolt] = Inr (rnd (1201 / 100))"
    using n(1) by simp
  from t 9 have sub: "calculateSubtotal [?nut, ?bolt] = Num (2260807012939989 / 1125899906842624)"
    by metis
  from t 6 7 have "getTotalPrice ?nut = Num (?p * of_int (sint (quantity ?nut)))" by blast
  then have g: "getTotalPrice ?nut = Num ?p" by (simp only: 8)
  from 1 2 3 5 total sub g show ?thesis by blast
qed

text \<open>
  C5. An item whose price is a NaN violates \<open>unitPrice \<ge> 0\<close>, and the order holding it
  is not rejected: the comparison \<^verbatim>\<open>item.price < 0\<close> is false for a NaN, validation
  passes and the total is a NaN. (For the items that validation does reject, lemmas
  \<open>calculateOrderTotal_first_violation\<close> and \<open>item_error_names_item\<close> give the
  exception: that of the first such item, with its product name at the end of the
  message.)
\<close>

theorem nan_price_is_not_rejected:
  "calculateOrderTotal
     [\<lparr>productName = ''Widget'', price = NaN, quantity = 1, category = ''''\<rparr>] = Inr NaN
   \<and> \<not> fge NaN (Num 0)"
  by code_simp

text \<open>
  C6. The total of a valid order is not the same for every order of its items: the
  subtotal is a running binary64 sum, and its roundings depend on the order. Three items
  of 0.05, 0.10 and 99.85 reach the free-shipping threshold in this order (total 100.00)
  and stay below it when the last two are swapped (total 110.00).
\<close>

theorem reordering_changes_total:
  "valid_order
     [\<lparr>productName = ''A'', price = rnd (5 / 100), quantity = 1, category = ''''\<rparr>,
      \<lparr>productName = ''B'', price = rnd (10 / 100), quantity = 1, category = ''''\<rparr>,
      \<lparr>productName = ''C'', price = rnd (9985 / 100), quantity = 1, category = ''''\<rparr>]
   \<and> mset
     [\<lparr>productName = ''A'', price = rnd (5 / 100), quantity = 1, category = ''''\<rparr>,
      \<lparr>productName = ''C'', price = rnd (9985 / 100), quantity = 1, category = ''''\<rparr>,
      \<lparr>productName = ''B'', price = rnd (10 / 100), quantity = 1, category = ''''\<rparr>]
     = mset
     [\<lparr>productName = ''A'', price = rnd (5 / 100), quantity = 1, category = ''''\<rparr>,
      \<lparr>productName = ''B'', price = rnd (10 / 100), quantity = 1, category = ''''\<rparr>,
      \<lparr>productName = ''C'', price = rnd (9985 / 100), quantity = 1, category = ''''\<rparr>]
   \<and> calculateOrderTotal
     [\<lparr>productName = ''A'', price = rnd (5 / 100), quantity = 1, category = ''''\<rparr>,
      \<lparr>productName = ''B'', price = rnd (10 / 100), quantity = 1, category = ''''\<rparr>,
      \<lparr>productName = ''C'', price = rnd (9985 / 100), quantity = 1, category = ''''\<rparr>]
     = Inr (Num 100)
   \<and> calculateOrderTotal
     [\<lparr>productName = ''A'', price = rnd (5 / 100), quantity = 1, category = ''''\<rparr>,
      \<lparr>productName = ''C'', price = rnd (9985 / 100), quantity = 1, category = ''''\<rparr>,
      \<lparr>productName = ''B'', price = rnd (10 / 100), quantity = 1, category = ''''\<rparr>]
     = Inr (Num 110)"
proof -
  let ?a = "\<lparr>productName = ''A'', price = rnd (5 / 100), quantity = 1, category = ''''\<rparr>"
  let ?b = "\<lparr>productName = ''B'', price = rnd (10 / 100), quantity = 1, category = ''''\<rparr>"
  let ?c = "\<lparr>productName = ''C'', price = rnd (9985 / 100), quantity = 1, category = ''''\<rparr>"
  have 1: "valid_order [?a, ?b, ?c]" by code_simp
  have 2: "mset [?a, ?c, ?b] = mset [?a, ?b, ?c]" by (simp add: add_mset_commute)
  have 3: "calculateOrderTotal [?a, ?b, ?c] = Inr (Num 100)" by code_simp
  have 4: "calculateOrderTotal [?a, ?c, ?b] = Inr (Num 110)" by code_simp
  from 1 2 3 4 show ?thesis by blast
qed

text \<open>
  C6, as amended. A permutation of a valid order is valid, and the two totals are equal
  when no addition of either running subtotal rounds.
\<close>

theorem total_invariant_under_exact_reordering:
  assumes "valid_order orderItems" "mset permuted = mset orderItems"
    and "exact_subtotal orderItems" "exact_subtotal permuted"
  shows "valid_order permuted \<and> calculateOrderTotal permuted = calculateOrderTotal orderItems"
proof -
  have "set permuted = set orderItems" using assms(2) by (rule mset_eq_setD)
  moreover have "permuted \<noteq> []" using assms(1,2) by (auto simp: valid_order_def)
  ultimately have vp: "valid_order permuted"
    using assms(1) by (simp add: valid_order_def list_all_iff)
  have v1: "validateOrderItems orderItems = Inr ()"
    using assms(1) validateLoop_valid[of orderItems]
    by (simp add: valid_order_def validateOrderItems_def)
  have v2: "validateOrderItems permuted = Inr ()"
    using assms(2) v1 by (rule validateOrderItems_permute)
  have "calculateSubtotal permuted = calculateSubtotal orderItems"
    using exact_subtotal_value[OF assms(3)] exact_subtotal_value[OF assms(4)] assms(2) by simp
  then have "calculateOrderTotal permuted = calculateOrderTotal orderItems"
    using calculateOrderTotal_ok[OF v1] calculateOrderTotal_ok[OF v2] by simp
  with vp show ?thesis by simp
qed

theorem total_invariant_under_exact_reordering_witness:
  "valid_order
     [\<lparr>productName = ''A'', price = Num 10, quantity = 1, category = ''''\<rparr>,
      \<lparr>productName = ''B'', price = Num (41 / 2), quantity = 2, category = ''''\<rparr>,
      \<lparr>productName = ''C'', price = Num 30, quantity = 1, category = ''''\<rparr>]
   \<and> calculateOrderTotal
     [\<lparr>productName = ''C'', price = Num 30, quantity = 1, category = ''''\<rparr>,
      \<lparr>productName = ''A'', price = Num 10, quantity = 1, category = ''''\<rparr>,
      \<lparr>productName = ''B'', price = Num (41 / 2), quantity = 2, category = ''''\<rparr>]
     = calculateOrderTotal
     [\<lparr>productName = ''A'', price = Num 10, quantity = 1, category = ''''\<rparr>,
      \<lparr>productName = ''B'', price = Num (41 / 2), quantity = 2, category = ''''\<rparr>,
      \<lparr>productName = ''C'', price = Num 30, quantity = 1, category = ''''\<rparr>]"
proof -
  let ?a = "\<lparr>productName = ''A'', price = Num 10, quantity = 1, category = ''''\<rparr>"
  let ?b = "\<lparr>productName = ''B'', price = Num (41 / 2), quantity = 2, category = ''''\<rparr>"
  let ?c = "\<lparr>productName = ''C'', price = Num 30, quantity = 1, category = ''''\<rparr>"
  have 1: "valid_order [?a, ?b, ?c]" by code_simp
  have 2: "mset [?c, ?a, ?b] = mset [?a, ?b, ?c]" by (simp add: add_mset_commute)
  have 3: "exact_subtotal [?a, ?b, ?c]" by code_simp
  have 4: "exact_subtotal [?c, ?a, ?b]" by code_simp
  from total_invariant_under_exact_reordering[OF 1 2 3 4] 1 show ?thesis by blast
qed

text \<open>
  C7. The order of one BOOKS item with unit price 10.00 and quantity 5 is charged exactly
  57.50: the line total 50.00 gets the bulk discount (47.50), the subtotal is below the
  free-shipping threshold, and 10.00 of shipping is added.
\<close>

theorem books_ten_by_five_total:
  "calculateOrderTotal
     [\<lparr>productName = ''Book'', price = Num 10, quantity = 5, category = ''BOOKS''\<rparr>]
   = Inr (Num (115 / 2))"
  by code_simp

text \<open>
  C8. For every valid order the calculator returns a total, and the total is at least
  10.00 (so it is non-negative, and never strictly between 0 and 10.00).
\<close>

theorem valid_order_total_at_least_shipping:
  assumes "valid_order orderItems"
  shows "\<exists>t. calculateOrderTotal orderItems = Inr t \<and> fge t (Num 10) \<and> fge t (Num 0)"
proof -
  have ne: "orderItems \<noteq> []" and all: "list_all valid_item orderItems"
    using assms by (simp_all add: valid_order_def)
  have v: "validateOrderItems orderItems = Inr ()"
    using ne validateLoop_valid[OF all] by (simp add: validateOrderItems_def)
  define s where "s = calculateSubtotal orderItems"
  define t where "t = fdiv (std_round (fmul (fadd s (calculateShippingCost s)) (Num 100))) (Num 100)"
  have "fle (Num 0) s" unfolding s_def using all by (rule calculateSubtotal_nonneg)
  then have "fle (Num 10) (fadd s (calculateShippingCost s))" by (rule total_amount_ge_10)
  then have t10: "fle (Num 10) t" unfolding t_def by (rule round2_ge_10)
  then have t0: "fle (Num 0) t" by (cases t) simp_all
  have "calculateOrderTotal orderItems = Inr t"
    by (simp add: calculateOrderTotal_def v Let_def s_def t_def)
  then show ?thesis using t10 t0 by (simp add: fge_def)
qed

theorem valid_order_total_at_least_shipping_witness:
  "valid_order [\<lparr>productName = ''Pencil'', price = rnd (1 / 100), quantity = 1, category = ''''\<rparr>]
   \<and> (\<exists>t. calculateOrderTotal
          [\<lparr>productName = ''Pencil'', price = rnd (1 / 100), quantity = 1, category = ''''\<rparr>]
        = Inr t \<and> fge t (Num 10) \<and> fge t (Num 0))"
proof -
  have v: "valid_order
    [\<lparr>productName = ''Pencil'', price = rnd (1 / 100), quantity = 1, category = ''''\<rparr>]"
    by code_simp
  from v valid_order_total_at_least_shipping[OF v] show ?thesis by (rule conjI)
qed

text \<open>
  C9. The BOOKS discount is decided line by line from the quantity of the line: a BOOKS
  line below 5 keeps its line total and a BOOKS line of 5 or more is multiplied by
  \<open>1 - 0.05\<close>, whatever else the order holds, since the subtotal sums the adjusted total
  of each line. Two BOOKS lines of 3 get no discount; one line of 6 does.
\<close>

theorem books_discount_is_per_line:
  "(equal_ignoring_case (category item) ''BOOKS'' \<and> sint (quantity item) < 5 \<longrightarrow>
      calculateItemTotal item = getTotalPrice item)
   \<and> (equal_ignoring_case (category item) ''BOOKS'' \<and> 5 \<le> sint (quantity item) \<longrightarrow>
      calculateItemTotal item = fmul (getTotalPrice item) (fsub (Num 1) (rnd (5 / 100))))
   \<and> calculateSubtotal orderItems = foldl fadd (Num 0) (map calculateItemTotal orderItems)"
  using books_not_electronics[of "category item"]
  by (auto simp: calculateItemTotal_policy calculateSubtotal_def subtotalLoop_foldl)

theorem books_discount_is_per_line_witness:
  "calculateSubtotal
     [\<lparr>productName = ''Atlas'', price = Num 10, quantity = 3, category = ''BOOKS''\<rparr>,
      \<lparr>productName = ''Novel'', price = Num 10, quantity = 3, category = ''BOOKS''\<rparr>]
   = Num 60
   \<and> calculateSubtotal
     [\<lparr>productName = ''Atlas'', price = Num 10, quantity = 6, category = ''BOOKS''\<rparr>]
   = Num 57"
proof -
  let ?a = "\<lparr>productName = ''Atlas'', price = Num 10, quantity = 3, category = ''BOOKS''\<rparr>"
  let ?n = "\<lparr>productName = ''Novel'', price = Num 10, quantity = 3, category = ''BOOKS''\<rparr>"
  let ?s = "\<lparr>productName = ''Atlas'', price = Num 10, quantity = 6, category = ''BOOKS''\<rparr>"
  have ca: "equal_ignoring_case (category ?a) ''BOOKS'' \<and> sint (quantity ?a) < 5" by code_simp
  have cn: "equal_ignoring_case (category ?n) ''BOOKS'' \<and> sint (quantity ?n) < 5" by code_simp
  have cs: "equal_ignoring_case (category ?s) ''BOOKS'' \<and> 5 \<le> sint (quantity ?s)" by code_simp
  from books_discount_is_per_line[of ?a "[?a, ?n]"] ca
  have ta: "calculateItemTotal ?a = getTotalPrice ?a"
    and sum2: "calculateSubtotal [?a, ?n] = foldl fadd (Num 0) (map calculateItemTotal [?a, ?n])"
    by blast+
  from books_discount_is_per_line[of ?n "[?a, ?n]"] cn
  have tn: "calculateItemTotal ?n = getTotalPrice ?n" by blast
  from books_discount_is_per_line[of ?s "[?s]"] cs
  have ts: "calculateItemTotal ?s = fmul (getTotalPrice ?s) (fsub (Num 1) (rnd (5 / 100)))"
    and sum1: "calculateSubtotal [?s] = foldl fadd (Num 0) (map calculateItemTotal [?s])"
    by blast+
  have e2: "fadd (fadd (Num 0) (getTotalPrice ?a)) (getTotalPrice ?n) = Num 60" by code_simp
  have e1: "fadd (Num 0) (fmul (getTotalPrice ?s) (fsub (Num 1) (rnd (5 / 100)))) = Num 57"
    by code_simp
  have "calculateSubtotal [?a, ?n] = Num 60"
    unfolding sum2 list.map foldl_Cons foldl_Nil ta tn by (rule e2)
  moreover have "calculateSubtotal [?s] = Num 57"
    unfolding sum1 list.map foldl_Cons foldl_Nil ts by (rule e1)
  ultimately show ?thesis by (rule conjI)
qed

text \<open>
  C10. The total is not monotone in the contents of the order: there are a valid order
  and a valid item with a positive price such that appending the item lowers the total.
  A lamp at 95.00 costs 105.00 with shipping; with a bulb at 5.00 added the subtotal
  reaches 100.00, shipping is free and the total is 100.00.
\<close>

theorem appending_an_item_can_lower_the_total:
  "\<exists>orderItems item t t'.
     valid_order orderItems \<and> valid_item item \<and> flt (Num 0) (price item)
     \<and> calculateOrderTotal orderItems = Inr t
     \<and> calculateOrderTotal (orderItems @ [item]) = Inr t'
     \<and> flt t' t"
  using lamp_then_bulb by blast

end
